theory Spec2Isabelle
  imports Main "HOL-Library.Sublist" "HOL-Library.Multiset"
begin

section \<open>The DNS address provider of pkg/discovery/dns/provider.go\<close>

subsection \<open>Library functions the provider calls\<close>

text \<open>
  Go strings are byte sequences, as \<^typ>\<open>string\<close> is. \<open>strings.Index s sep\<close> is the
  position of the first occurrence of \<open>sep\<close> in \<open>s\<close>; Go returns \<open>-1\<close> when there is
  none, the model returns \<open>None\<close>.
\<close>

fun Index :: "string \<Rightarrow> string \<Rightarrow> nat option" where
  "Index [] sep = (if sep = [] then Some 0 else None)"
| "Index (c # cs) sep =
     (if prefix sep (c # cs) then Some 0 else map_option Suc (Index cs sep))"

text \<open>
  \<open>strings.SplitN s sep n\<close> for a non-empty separator and \<open>n \<ge> 0\<close>: no piece for
  \<open>n = 0\<close>, otherwise at most \<open>n\<close> pieces, cut at the leftmost occurrences of \<open>sep\<close>,
  the last piece being the unsplit remainder. The provider's only call is
  \<open>SplitN addr "+" 2\<close>. (The empty separator, which Go explodes into UTF-8 sequences,
  and a negative \<open>n\<close> are never used by the provider.)
\<close>

fun SplitN :: "string \<Rightarrow> string \<Rightarrow> nat \<Rightarrow> string list" where
  "SplitN s sep 0 = []"
| "SplitN s sep (Suc n) =
     (if n = 0 then [s]
      else case Index s sep of
             None \<Rightarrow> [s]
           | Some m \<Rightarrow> take m s # SplitN (drop (m + length sep) s) sep n)"

subsection \<open>The provider's state\<close>

text \<open>
  \<open>resolved\<close> is the Go map \<open>p.resolved\<close>. \<open>resolver\<close> is the internal state of the
  object behind the \<open>Resolver\<close> interface (a DNS client, or a test double); the interface
  method itself is a parameter of the operations below. \<open>logger\<close> collects the error
  lines written to \<open>p.logger\<close>, as pairs of message and error. The two Prometheus
  counters are package-level variables of the source; they are carried in the same
  record. The embedded mutex has no field: both methods hold it from entry to return,
  and each is modelled as one step on the state.
\<close>

record ('r, 'e) Provider =
  resolver :: 'r
  resolved :: "string \<rightharpoonup> string list"
  logger :: "(string \<times> 'e) list"
  dnsResolveLookupsCount :: nat
  dnsResolveFailuresCount :: nat

text \<open>
  The method \<open>Resolve(ctx, name, qtype)\<close> of the \<open>Resolver\<close> interface: from the
  context, the name, the query type and the resolver's own state to the returned pair
  (hosts, error) and the resolver's next state. The error is \<open>None\<close> for Go's \<open>nil\<close>.
\<close>

type_synonym ('c, 'r, 'e) Resolver =
  "'c \<Rightarrow> string \<Rightarrow> string \<Rightarrow> 'r \<Rightarrow> (string list \<times> 'e option) \<times> 'r"

text \<open>
  \<open>NewProvider\<close>: an empty map around the given resolver (the default resolver that
  the source substitutes for \<open>nil\<close> is one more instance of the parameter). The counters
  start at zero with the process.
\<close>

definition NewProvider :: "'r \<Rightarrow> ('r, 'e) Provider" where
  "NewProvider r =
     \<lparr>resolver = r, resolved = Map.empty, logger = [],
      dnsResolveLookupsCount = 0, dnsResolveFailuresCount = 0\<rparr>"

subsection \<open>contains\<close>

fun contains :: "string list \<Rightarrow> string \<Rightarrow> bool" where
  "contains [] str = False"
| "contains (s # slice) str = (if str = s then True else contains slice str)"

subsection \<open>Resolve\<close>

text \<open>One iteration of the loop over \<open>addrs\<close> (lines 63 to 82).\<close>

definition Resolve_entry ::
  "('c, 'r, 'e) Resolver \<Rightarrow> 'c \<Rightarrow> string \<Rightarrow> ('r, 'e) Provider \<Rightarrow> ('r, 'e) Provider" where
  "Resolve_entry rslv ctx addr p =
     (let qtypeAndName = SplitN addr ''+'' 2 in
      if length qtypeAndName \<noteq> 2
      then p\<lparr>resolved := (resolved p)(addr \<mapsto> [addr])\<rparr>
      else
        let qtype = qtypeAndName ! 0;
            name = qtypeAndName ! 1;
            ((resolvedHosts, err), r') = rslv ctx name qtype (resolver p);
            p1 = p\<lparr>resolver := r',
                   dnsResolveLookupsCount := dnsResolveLookupsCount p + 1\<rparr>
        in case err of
             Some e \<Rightarrow>
               p1\<lparr>dnsResolveFailuresCount := dnsResolveFailuresCount p1 + 1,
                  logger := logger p1 @ [(''dns resolution failed for '' @ addr, e)]\<rparr>
           | None \<Rightarrow> p1\<lparr>resolved := (resolved p1)(addr \<mapsto> resolvedHosts)\<rparr>)"

text \<open>The loop itself: the entries in order, each on the state the previous one left.\<close>

fun Resolve_loop ::
  "('c, 'r, 'e) Resolver \<Rightarrow> 'c \<Rightarrow> string list \<Rightarrow> ('r, 'e) Provider \<Rightarrow> ('r, 'e) Provider" where
  "Resolve_loop rslv ctx [] p = p"
| "Resolve_loop rslv ctx (addr # addrs) p =
     Resolve_loop rslv ctx addrs (Resolve_entry rslv ctx addr p)"

text \<open>
  Go visits the keys of a map in an order the runtime chooses, each key once. The two
  \<open>range\<close> loops over \<open>p.resolved\<close> take that order as a parameter \<open>ks\<close>;
  \<open>map_range m ks\<close> says that \<open>ks\<close> is an order in which the keys of \<open>m\<close> can be
  visited.
\<close>

definition map_range :: "(string \<rightharpoonup> 'v) \<Rightarrow> string list \<Rightarrow> bool" where
  "map_range m ks \<longleftrightarrow> distinct ks \<and> set ks = dom m"

text \<open>Lines 85 to 90: the keys that are no longer requested, in the order visited.\<close>

fun entriesToDelete :: "string list \<Rightarrow> string list \<Rightarrow> string list" where
  "entriesToDelete addrs [] = []"
| "entriesToDelete addrs (existingAddr # ks) =
     (if \<not> contains addrs existingAddr
      then existingAddr # entriesToDelete addrs ks
      else entriesToDelete addrs ks)"

text \<open>Lines 91 to 93: \<open>delete\<close> removes the key from the map.\<close>

fun delete_all :: "string list \<Rightarrow> (string \<rightharpoonup> 'v) \<Rightarrow> (string \<rightharpoonup> 'v)" where
  "delete_all [] m = m"
| "delete_all (toDelete # ds) m = delete_all ds (m(toDelete := None))"

text \<open>
  The whole method. The result is the returned error (\<open>None\<close> for \<open>nil\<close>) and the
  state after the call.
\<close>

definition Resolve ::
  "('c, 'r, 'e) Resolver \<Rightarrow> 'c \<Rightarrow> string list \<Rightarrow> string list \<Rightarrow> ('r, 'e) Provider
     \<Rightarrow> 'e option \<times> ('r, 'e) Provider" where
  "Resolve rslv ctx addrs ks p =
     (let p1 = Resolve_loop rslv ctx addrs p;
          p2 = p1\<lparr>resolved := delete_all (entriesToDelete addrs ks) (resolved p1)\<rparr>
      in (None, p2))"

subsection \<open>Addresses\<close>

text \<open>
  The loop of lines 103 to 105 over the keys in the order \<open>ks\<close>, appending each stored
  slice to the result.
\<close>

fun Addresses_loop :: "(string \<rightharpoonup> string list) \<Rightarrow> string list \<Rightarrow> string list \<Rightarrow> string list" where
  "Addresses_loop m [] result = result"
| "Addresses_loop m (k # ks) result =
     Addresses_loop m ks (result @ (case m k of None \<Rightarrow> [] | Some addrs \<Rightarrow> addrs))"

definition Addresses :: "('r, 'e) Provider \<Rightarrow> string list \<Rightarrow> string list" where
  "Addresses p ks = Addresses_loop (resolved p) ks []"

subsection \<open>Addresses at the level of slices\<close>

text \<open>
  The map holds Go slices: a slice is a window (\<open>off\<close>, \<open>len\<close>, \<open>cap\<close>) on a backing
  array, and two slices on the same array see each other's writes. For the question
  whether the slice that \<open>Addresses\<close> returns shares memory with the cached ones, the
  same loop is modelled over an explicit store of arrays. \<open>array = None\<close> is the nil
  slice; \<open>fresh\<close> is the next array the allocator hands out.
\<close>

record slice =
  array :: "nat option"
  off :: nat
  len :: nat
  cap :: nat

record store =
  arrays :: "nat \<rightharpoonup> string list"
  fresh :: nat

definition nil_slice :: slice where
  "nil_slice = \<lparr>array = None, off = 0, len = 0, cap = 0\<rparr>"

definition the_array :: "store \<Rightarrow> nat \<Rightarrow> string list" where
  "the_array h a = (case arrays h a of None \<Rightarrow> [] | Some xs \<Rightarrow> xs)"

text \<open>The elements a slice shows.\<close>

definition elems :: "store \<Rightarrow> slice \<Rightarrow> string list" where
  "elems h s =
     (case array s of
        None \<Rightarrow> []
      | Some a \<Rightarrow> take (len s) (drop (off s) (the_array h a)))"

text \<open>A slice of the store: inside an array that has been allocated.\<close>

definition slice_ok :: "store \<Rightarrow> slice \<Rightarrow> bool" where
  "slice_ok h s \<longleftrightarrow>
     len s \<le> cap s \<and>
     (case array s of
        None \<Rightarrow> cap s = 0
      | Some a \<Rightarrow> a < fresh h \<and> off s + cap s \<le> length (the_array h a))"

text \<open>
  Go's built-in \<open>append(s, xs...)\<close>: when the capacity suffices the elements are written
  into the backing array of \<open>s\<close> behind its last element; otherwise a new array is
  allocated, the old elements and the new ones are copied into it, and the rest of it
  holds the zero value, the empty string. The capacity the runtime picks when it grows
  is the parameter \<open>growcap\<close> (old capacity, needed length), never less than needed.
\<close>

definition append_slice ::
  "(nat \<Rightarrow> nat \<Rightarrow> nat) \<Rightarrow> slice \<Rightarrow> string list \<Rightarrow> store \<Rightarrow> slice \<times> store" where
  "append_slice growcap s xs h =
     (let n = len s + length xs in
      if n \<le> cap s then
        (case array s of
           None \<Rightarrow> (s, h)
         | Some a \<Rightarrow>
             let old = the_array h a;
                 i = off s + len s
             in (s\<lparr>len := n\<rparr>,
                 h\<lparr>arrays := (arrays h)(a \<mapsto> take i old @ xs @ drop (i + length xs) old)\<rparr>))
      else
        let c = max n (growcap (cap s) n);
            a' = fresh h
        in (\<lparr>array = Some a', off = 0, len = n, cap = c\<rparr>,
            h\<lparr>arrays := (arrays h)(a' \<mapsto> elems h s @ xs @ replicate (c - n) []),
              fresh := Suc a'\<rparr>))"

text \<open>The assignment \<open>s[i] = v\<close>; an index out of range panics (\<open>None\<close>).\<close>

definition slice_set :: "slice \<Rightarrow> nat \<Rightarrow> string \<Rightarrow> store \<Rightarrow> store option" where
  "slice_set s i v h =
     (if i < len s
      then (case array s of
              None \<Rightarrow> None
            | Some a \<Rightarrow> Some (h\<lparr>arrays := (arrays h)(a \<mapsto> (the_array h a)[off s + i := v])\<rparr>))
      else None)"

text \<open>
  Lines 102 to 106 on the store: \<open>result\<close> starts as the nil slice, each cached slice
  is appended in the order \<open>ks\<close> of the \<open>range\<close>.
\<close>

fun Addresses_store_loop ::
  "(nat \<Rightarrow> nat \<Rightarrow> nat) \<Rightarrow> (string \<rightharpoonup> slice) \<Rightarrow> string list \<Rightarrow> slice \<Rightarrow> store
     \<Rightarrow> slice \<times> store" where
  "Addresses_store_loop growcap m [] result h = (result, h)"
| "Addresses_store_loop growcap m (k # ks) result h =
     (case m k of
        None \<Rightarrow> Addresses_store_loop growcap m ks result h
      | Some addrs \<Rightarrow>
          (case append_slice growcap result (elems h addrs) h of
             (result', h') \<Rightarrow> Addresses_store_loop growcap m ks result' h'))"

definition Addresses_store ::
  "(nat \<Rightarrow> nat \<Rightarrow> nat) \<Rightarrow> (string \<rightharpoonup> slice) \<Rightarrow> string list \<Rightarrow> store \<Rightarrow> slice \<times> store" where
  "Addresses_store growcap m ks h = Addresses_store_loop growcap m ks nil_slice h"

text \<open>
  The invariant of that loop: \<open>result\<close> is nil, or it spans a whole array that was
  allocated after the call began (at or beyond \<open>f0\<close>, the allocator's position then).
\<close>

definition owned :: "nat \<Rightarrow> store \<Rightarrow> slice \<Rightarrow> bool" where
  "owned f0 h r \<longleftrightarrow>
     len r \<le> cap r \<and>
     (case array r of
        None \<Rightarrow> cap r = 0
      | Some a \<Rightarrow> f0 \<le> a \<and> a < fresh h \<and> off r = 0 \<and> length (the_array h a) = cap r)"

subsection \<open>Test doubles\<close>

text \<open>
  Two implementations of the \<open>Resolver\<close> interface for concrete runs. The first
  answers from a fixed table and records every call it receives as (name, qtype); the
  second answers by the number of calls made so far: two different successes, then
  failures.
\<close>

definition cannedResolver :: "(unit, (string \<times> string) list, string) Resolver" where
  "cannedResolver ctx name qtype calls =
     ((if qtype = ''dns'' \<and> name = ''example.com:9090''
         then ([''10.0.0.1:9090'', ''10.0.0.2:9090''], None)
       else if qtype = ''dnssrv'' \<and> name = ''_svc._tcp.example.com''
         then ([''10.0.0.5:7000''], None)
       else ([], Some ''no such host'')),
      calls @ [(name, qtype)])"

definition flakyResolver :: "(unit, nat, string) Resolver" where
  "flakyResolver ctx name qtype n =
     ((if n = 0 then ([''10.0.0.1:9090''], None)
       else if n = 1 then ([''10.0.0.2:9090''], None)
       else ([], Some ''i/o timeout'')),
      Suc n)"

text \<open>A provider that holds entries from an earlier call.\<close>

definition staleProvider :: "((string \<times> string) list, string) Provider" where
  "staleProvider =
     (NewProvider [])\<lparr>resolved :=
        [''dns+bad.example.com:9090'' \<mapsto> [''10.0.0.9:9090''],
         ''10.0.0.7:9090'' \<mapsto> [''10.0.0.7:9090'']]\<rparr>"

text \<open>
  A cache of two entries, once as values and once as slices in a store; the first slice
  has spare capacity. \<open>doubling\<close> is a growth policy.
\<close>

definition doubling :: "nat \<Rightarrow> nat \<Rightarrow> nat" where
  "doubling oldcap needed = 2 * oldcap"

definition cachedStore :: store where
  "cachedStore =
     \<lparr>arrays = [0 \<mapsto> [''10.0.0.1:9090'', ''10.0.0.2:9090'', []],
                1 \<mapsto> [''127.0.0.1:9090'']],
      fresh = 2\<rparr>"

definition cachedSlices :: "string \<rightharpoonup> slice" where
  "cachedSlices =
     [''dns+example.com:9090'' \<mapsto> \<lparr>array = Some 0, off = 0, len = 2, cap = 3\<rparr>,
      ''127.0.0.1:9090'' \<mapsto> \<lparr>array = Some 1, off = 0, len = 1, cap = 1\<rparr>]"

definition cachedProvider :: "((string \<times> string) list, string) Provider" where
  "cachedProvider =
     (NewProvider [])\<lparr>resolved :=
        [''dns+example.com:9090'' \<mapsto> [''10.0.0.1:9090'', ''10.0.0.2:9090''],
         ''127.0.0.1:9090'' \<mapsto> [''127.0.0.1:9090'']]\<rparr>"

section \<open>Properties\<close>

subsection \<open>contains and the pruning loops\<close>

lemma contains_iff: "contains slice str \<longleftrightarrow> str \<in> set slice"
  by (induction slice) auto

lemma entriesToDelete_filter:
  "entriesToDelete addrs ks = filter (\<lambda>k. k \<notin> set addrs) ks"
  by (induction ks) (simp_all add: contains_iff)

lemma delete_all_apply:
  "delete_all ds m k = (if k \<in> set ds then None else m k)"
  by (induction ds arbitrary: m) auto

lemma prune_apply:
  assumes "map_range m ks"
  shows "delete_all (entriesToDelete addrs ks) m k = (if k \<in> set addrs then m k else None)"
proof -
  from assms have "k \<notin> set ks \<Longrightarrow> m k = None"
    by (auto simp: map_range_def)
  then show ?thesis
    by (auto simp: delete_all_apply entriesToDelete_filter)
qed

subsection \<open>Splitting an address\<close>

lemma Index_char:
  "Index s [c] = (if c \<in> set s then Some (length (takeWhile (\<lambda>x. x \<noteq> c) s)) else None)"
  by (induction s) auto

lemma SplitN_2:
  "SplitN s sep 2 =
     (case Index s sep of None \<Rightarrow> [s] | Some m \<Rightarrow> [take m s, drop (m + length sep) s])"
  by (simp add: numeral_2_eq_2 split: option.split)

lemma SplitN_no_sep:
  "c \<notin> set s \<Longrightarrow> SplitN s [c] 2 = [s]"
  by (simp add: numeral_2_eq_2 Index_char)

lemma SplitN_first_sep:
  "c \<notin> set q \<Longrightarrow> SplitN (q @ c # n) [c] 2 = [q, n]"
proof -
  assume "c \<notin> set q"
  then have "takeWhile (\<lambda>x. x \<noteq> c) q = q"
    by (auto simp: takeWhile_eq_all_conv)
  then show ?thesis
    by (simp add: numeral_2_eq_2 Index_char takeWhile_tail)
qed

lemma SplitN_2_cases:
  "SplitN s [c] 2 = [s] \<and> c \<notin> set s \<or>
   (\<exists>q n. SplitN s [c] 2 = [q, n] \<and> c \<in> set s)"
  by (simp add: numeral_2_eq_2 Index_char)

subsection \<open>One entry of the loop\<close>

lemma Resolve_entry_literal:
  assumes "CHR ''+'' \<notin> set addr"
  shows "Resolve_entry rslv ctx addr p = p\<lparr>resolved := (resolved p)(addr \<mapsto> [addr])\<rparr>"
  using assms by (simp add: Resolve_entry_def SplitN_no_sep)

lemma Resolve_entry_lookup:
  assumes "SplitN addr ''+'' 2 = [qtype, name]"
    and "rslv ctx name qtype (resolver p) = ((hosts, err), r')"
  shows "Resolve_entry rslv ctx addr p =
           (case err of
              Some e \<Rightarrow>
                p\<lparr>resolver := r',
                  dnsResolveLookupsCount := dnsResolveLookupsCount p + 1,
                  dnsResolveFailuresCount := dnsResolveFailuresCount p + 1,
                  logger := logger p @ [(''dns resolution failed for '' @ addr, e)]\<rparr>
            | None \<Rightarrow>
                p\<lparr>resolver := r',
                  dnsResolveLookupsCount := dnsResolveLookupsCount p + 1,
                  resolved := (resolved p)(addr \<mapsto> hosts)\<rparr>)"
  using assms by (simp add: Resolve_entry_def Let_def split: option.split)

lemma Resolve_entry_other:
  "k \<noteq> addr \<Longrightarrow> resolved (Resolve_entry rslv ctx addr p) k = resolved p k"
  by (simp add: Resolve_entry_def Let_def split: option.split prod.split)

lemma Resolve_entry_failed:
  assumes "SplitN addr ''+'' 2 = [qtype, name]"
    and "snd (fst (rslv ctx name qtype (resolver p))) \<noteq> None"
  shows "resolved (Resolve_entry rslv ctx addr p) = resolved p"
  using assms by (auto simp: Resolve_entry_def Let_def split: option.split prod.split)

lemma Resolve_entry_succeeded:
  assumes "SplitN addr ''+'' 2 = [qtype, name]"
    and "fst (rslv ctx name qtype (resolver p)) = (hosts, None)"
  shows "resolved (Resolve_entry rslv ctx addr p) = (resolved p)(addr \<mapsto> hosts)"
  using assms by (auto simp: Resolve_entry_def Let_def split: option.split prod.split)

lemma Resolve_entry_lookups:
  "dnsResolveLookupsCount (Resolve_entry rslv ctx addr p) =
     dnsResolveLookupsCount p + (if CHR ''+'' \<in> set addr then 1 else 0)"
  using SplitN_2_cases [of addr "CHR ''+''"]
  by (auto simp: Resolve_entry_def Let_def split: option.split prod.split)

subsection \<open>The loop and the whole call\<close>

lemma Resolve_loop_append:
  "Resolve_loop rslv ctx (xs @ ys) p = Resolve_loop rslv ctx ys (Resolve_loop rslv ctx xs p)"
  by (induction xs arbitrary: p) simp_all

lemma Resolve_loop_other:
  "k \<notin> set addrs \<Longrightarrow> resolved (Resolve_loop rslv ctx addrs p) k = resolved p k"
  by (induction addrs arbitrary: p) (simp_all add: Resolve_entry_other)

lemma Resolve_loop_lookups:
  "dnsResolveLookupsCount (Resolve_loop rslv ctx addrs p) =
     dnsResolveLookupsCount p + length (filter (\<lambda>a. CHR ''+'' \<in> set a) addrs)"
  by (induction addrs arbitrary: p) (simp_all add: Resolve_entry_lookups)

lemma Resolve_keeps_counters:
  "dnsResolveLookupsCount (snd (Resolve rslv ctx addrs ks p)) =
     dnsResolveLookupsCount (Resolve_loop rslv ctx addrs p)"
  by (simp add: Resolve_def Let_def)

lemma resolved_Resolve:
  assumes "map_range (resolved (Resolve_loop rslv ctx addrs p)) ks"
  shows "resolved (snd (Resolve rslv ctx addrs ks p)) k =
           (if k \<in> set addrs then resolved (Resolve_loop rslv ctx addrs p) k else None)"
  using prune_apply [OF assms] by (simp add: Resolve_def Let_def)

lemma Resolve_loop_literal:
  assumes "CHR ''+'' \<notin> set addr" and "addr \<in> set addrs"
  shows "resolved (Resolve_loop rslv ctx addrs p) addr = Some [addr]"
  using assms(2)
proof (induction addrs arbitrary: p)
  case Nil
  then show ?case by simp
next
  case (Cons x xs)
  show ?case
  proof (cases "addr \<in> set xs")
    case True
    then show ?thesis using Cons.IH by simp
  next
    case False
    with Cons.prems have "x = addr" by simp
    with False assms(1) show ?thesis
      by (simp add: Resolve_loop_other Resolve_entry_literal)
  qed
qed

lemma Resolve_loop_all_failed:
  assumes "SplitN addr ''+'' 2 = [qtype, name]"
    and "\<forall>xs ys. addrs = xs @ addr # ys \<longrightarrow>
           snd (fst (rslv ctx name qtype (resolver (Resolve_loop rslv ctx xs p)))) \<noteq> None"
  shows "resolved (Resolve_loop rslv ctx addrs p) addr = resolved p addr"
  using assms(2)
proof (induction addrs arbitrary: p)
  case Nil
  then show ?case by simp
next
  case (Cons x rest)
  let ?p1 = "Resolve_entry rslv ctx x p"
  have later: "\<forall>xs ys. rest = xs @ addr # ys \<longrightarrow>
           snd (fst (rslv ctx name qtype (resolver (Resolve_loop rslv ctx xs ?p1)))) \<noteq> None"
  proof (intro allI impI)
    fix xs ys assume "rest = xs @ addr # ys"
    then have "x # rest = (x # xs) @ addr # ys" by simp
    with Cons.prems
    have "snd (fst (rslv ctx name qtype (resolver (Resolve_loop rslv ctx (x # xs) p)))) \<noteq> None"
      by blast
    then show "snd (fst (rslv ctx name qtype (resolver (Resolve_loop rslv ctx xs ?p1)))) \<noteq> None"
      by simp
  qed
  have step: "resolved ?p1 addr = resolved p addr"
  proof (cases "x = addr")
    case True
    then have "x # rest = [] @ addr # rest" by simp
    with Cons.prems
    have "snd (fst (rslv ctx name qtype (resolver (Resolve_loop rslv ctx [] p)))) \<noteq> None"
      by blast
    with True assms(1) show ?thesis
      by (simp add: Resolve_entry_failed)
  next
    case False
    then show ?thesis by (simp add: Resolve_entry_other)
  qed
  from Cons.IH [OF later] step show ?case by simp
qed

lemma Resolve_loop_last_success:
  assumes "SplitN addr ''+'' 2 = [qtype, name]"
    and "fst (rslv ctx name qtype (resolver (Resolve_loop rslv ctx xs p))) = (hosts, None)"
    and "\<forall>ys1 ys2. ys = ys1 @ addr # ys2 \<longrightarrow>
           snd (fst (rslv ctx name qtype
             (resolver (Resolve_loop rslv ctx (xs @ addr # ys1) p)))) \<noteq> None"
  shows "resolved (Resolve_loop rslv ctx (xs @ addr # ys) p) addr = Some hosts"
proof -
  let ?q = "Resolve_loop rslv ctx (xs @ [addr]) p"
  have q: "resolved ?q = (resolved (Resolve_loop rslv ctx xs p))(addr \<mapsto> hosts)"
    using Resolve_entry_succeeded [where rslv = rslv and ctx = ctx, OF assms(1,2)] by (simp add: Resolve_loop_append)
  have "\<forall>ys1 ys2. ys = ys1 @ addr # ys2 \<longrightarrow>
           snd (fst (rslv ctx name qtype (resolver (Resolve_loop rslv ctx ys1 ?q)))) \<noteq> None"
    using assms(3) by (simp add: Resolve_loop_append)
  then have "resolved (Resolve_loop rslv ctx ys ?q) addr = resolved ?q addr"
    by (rule Resolve_loop_all_failed [OF assms(1)])
  moreover have "Resolve_loop rslv ctx (xs @ addr # ys) p = Resolve_loop rslv ctx ys ?q"
    by (simp add: Resolve_loop_append)
  ultimately show ?thesis using q by simp
qed

subsection \<open>A resolver whose answers do not depend on its state\<close>

lemma Resolve_entry_value:
  assumes "\<forall>name qtype r r'. fst (rslv c name qtype r) = fst (rslv c' name qtype r')"
    and "resolved p k = resolved q k"
  shows "resolved (Resolve_entry rslv c k p) k = resolved (Resolve_entry rslv c' k q) k"
proof -
  consider "SplitN k ''+'' 2 = [k]" | qtype name where "SplitN k ''+'' 2 = [qtype, name]"
    using SplitN_2_cases [of k "CHR ''+''"] by blast
  then show ?thesis
  proof cases
    case 1
    then show ?thesis by (simp add: Resolve_entry_def)
  next
    case 2
    obtain h e r1 where a: "rslv c name qtype (resolver p) = ((h, e), r1)"
      by (metis prod.exhaust)
    obtain h' e' r2 where b: "rslv c' name qtype (resolver q) = ((h', e'), r2)"
      by (metis prod.exhaust)
    from assms(1) have "fst (rslv c name qtype (resolver p)) = fst (rslv c' name qtype (resolver q))"
      by blast
    with a b have "h' = h" "e' = e" by simp_all
    with a b 2 assms(2) show ?thesis
      by (simp add: Resolve_entry_def Let_def split: option.split)
  qed
qed

lemma Resolve_entry_twice:
  assumes "\<forall>name qtype r r'. fst (rslv c name qtype r) = fst (rslv c' name qtype r')"
  shows "resolved (Resolve_entry rslv c' k (Resolve_entry rslv c k p)) k =
           resolved (Resolve_entry rslv c k p) k"
proof -
  consider "SplitN k ''+'' 2 = [k]" | qtype name where "SplitN k ''+'' 2 = [qtype, name]"
    using SplitN_2_cases [of k "CHR ''+''"] by blast
  then show ?thesis
  proof cases
    case 1
    then show ?thesis by (simp add: Resolve_entry_def)
  next
    case 2
    let ?p1 = "Resolve_entry rslv c k p"
    obtain h e r1 where a: "rslv c name qtype (resolver p) = ((h, e), r1)"
      by (metis prod.exhaust)
    obtain h' e' r2 where b: "rslv c' name qtype (resolver ?p1) = ((h', e'), r2)"
      by (metis prod.exhaust)
    from assms have "fst (rslv c name qtype (resolver p)) = fst (rslv c' name qtype (resolver ?p1))"
      by blast
    with a b have eq: "h' = h" "e' = e" by simp_all
    have "resolved ?p1 k = (case e of None \<Rightarrow> Some h | Some x \<Rightarrow> resolved p k)"
      using a 2 by (simp add: Resolve_entry_def Let_def split: option.split)
    moreover have "resolved (Resolve_entry rslv c' k ?p1) k =
        (case e' of None \<Rightarrow> Some h' | Some x \<Rightarrow> resolved ?p1 k)"
      using b 2 by (simp add: Resolve_entry_def [of rslv c' k ?p1] Let_def split: option.split)
    ultimately show ?thesis using eq by (simp split: option.split)
  qed
qed

lemma pure_same_ctx:
  assumes "\<forall>name qtype r r'. fst (rslv c name qtype r) = fst (rslv c' name qtype r')"
  shows "\<forall>name qtype r r'. fst (rslv c name qtype r) = fst (rslv c name qtype r')"
    and "\<forall>name qtype r r'. fst (rslv c' name qtype r) = fst (rslv c' name qtype r')"
  using assms by metis+

lemma Resolve_loop_pure:
  assumes "\<forall>name qtype r r'. fst (rslv c name qtype r) = fst (rslv c name qtype r')"
    and "k \<in> set addrs"
  shows "resolved (Resolve_loop rslv c addrs p) k = resolved (Resolve_entry rslv c k p) k"
  using assms(2)
proof (induction addrs arbitrary: p)
  case Nil
  then show ?case by simp
next
  case (Cons x xs)
  let ?p1 = "Resolve_entry rslv c x p"
  show ?case
  proof (cases "k \<in> set xs")
    case True
    then have "resolved (Resolve_loop rslv c (x # xs) p) k = resolved (Resolve_entry rslv c k ?p1) k"
      using Cons.IH by simp
    also have "\<dots> = resolved (Resolve_entry rslv c k p) k"
    proof (cases "x = k")
      case True
      then show ?thesis using Resolve_entry_twice [where rslv = rslv and c = c and c' = c, OF assms(1)] by simp
    next
      case False
      then have "resolved ?p1 k = resolved p k"
        by (simp add: Resolve_entry_other)
      then show ?thesis by (rule Resolve_entry_value [where rslv = rslv and c = c and c' = c, OF assms(1)])
    qed
    finally show ?thesis .
  next
    case False
    with Cons.prems have "x = k" by simp
    with False show ?thesis by (simp add: Resolve_loop_other)
  qed
qed

subsection \<open>Addresses\<close>

lemma Addresses_loop_concat:
  "Addresses_loop m ks result =
     result @ concat (map (\<lambda>k. case m k of None \<Rightarrow> [] | Some addrs \<Rightarrow> addrs) ks)"
  by (induction ks arbitrary: result) simp_all

lemma Addresses_concat:
  "Addresses p ks = concat (map (\<lambda>k. case resolved p k of None \<Rightarrow> [] | Some addrs \<Rightarrow> addrs) ks)"
  by (simp add: Addresses_def Addresses_loop_concat)

lemma Addresses_append:
  "Addresses p (ks1 @ ks2) = Addresses p ks1 @ Addresses p ks2"
  by (simp add: Addresses_concat)

lemma Addresses_Cons:
  "Addresses p (k # ks) = (case resolved p k of None \<Rightarrow> [] | Some addrs \<Rightarrow> addrs) @ Addresses p ks"
  by (simp add: Addresses_concat)

lemma Addresses_Nil: "Addresses p [] = []"
  by (simp add: Addresses_def)

lemma Addresses_member:
  "t \<in> set (Addresses p ks) \<longleftrightarrow> (\<exists>k\<in>set ks. \<exists>v. resolved p k = Some v \<and> t \<in> set v)"
  by (induction ks) (auto simp: Addresses_Cons Addresses_Nil split: option.splits)

lemma Addresses_split_key:
  assumes "map_range (resolved p) ks" and "resolved p k = Some v"
  shows "\<exists>ks1 ks2. ks = ks1 @ k # ks2 \<and> k \<notin> set ks1 \<and> k \<notin> set ks2 \<and>
           Addresses p ks = Addresses p ks1 @ v @ Addresses p ks2"
proof -
  from assms have "k \<in> set ks" and d: "distinct ks"
    by (auto simp: map_range_def)
  then obtain ks1 ks2 where ks: "ks = ks1 @ k # ks2"
    by (auto dest: split_list)
  with d have "k \<notin> set ks1" and "k \<notin> set ks2" by auto
  moreover have "Addresses p ks = Addresses p ks1 @ v @ Addresses p ks2"
    using assms(2) by (simp add: ks Addresses_append Addresses_Cons)
  ultimately show ?thesis using ks by blast
qed

lemma Addresses_mset_key:
  assumes "map_range (resolved p) ks" and "resolved p k = Some v"
  shows "mset (Addresses p ks) = mset v + mset (Addresses p (removeAll k ks))"
proof -
  from Addresses_split_key [OF assms] obtain ks1 ks2 where
    "ks = ks1 @ k # ks2" "k \<notin> set ks1" "k \<notin> set ks2"
    "Addresses p ks = Addresses p ks1 @ v @ Addresses p ks2"
    by blast
  then show ?thesis
    by (simp add: Addresses_append)
qed

lemma Addresses_sum:
  assumes "map_range (resolved p) ks"
  shows "mset (Addresses p ks) = (\<Sum>k\<in>dom (resolved p). mset (the (resolved p k)))"
proof -
  let ?g = "\<lambda>k. case resolved p k of None \<Rightarrow> [] | Some addrs \<Rightarrow> addrs"
  have "mset (Addresses p ks) = sum_list (map (\<lambda>k. mset (?g k)) ks)"
    by (simp add: Addresses_concat mset_concat comp_def)
  also have "\<dots> = (\<Sum>k\<in>set ks. mset (?g k))"
    using assms by (simp add: map_range_def sum_list_distinct_conv_sum_set)
  also have "\<dots> = (\<Sum>k\<in>dom (resolved p). mset (the (resolved p k)))"
    using assms by (auto simp: map_range_def intro!: sum.cong)
  finally show ?thesis .
qed

lemma Addresses_the:
  assumes "map_range (resolved p) ks"
  shows "Addresses p ks = concat (map (\<lambda>k. the (resolved p k)) ks)"
proof -
  have "(case resolved p k of None \<Rightarrow> [] | Some addrs \<Rightarrow> addrs) = the (resolved p k)"
    if "k \<in> set ks" for k
    using that assms by (auto simp: map_range_def)
  then show ?thesis
    by (simp add: Addresses_concat cong: map_cong)
qed

lemma Addresses_empty:
  assumes "map_range (resolved p) ks" and "resolved p = Map.empty"
  shows "Addresses p ks = []"
  using assms by (simp add: map_range_def Addresses_Nil)

subsection \<open>Slices\<close>

lemma length_elems_owned:
  "owned f0 h r \<Longrightarrow> length (elems h r) = len r"
  by (auto simp: owned_def elems_def split: option.splits)

lemma append_slice_owned:
  assumes "owned f0 h r" and "f0 \<le> fresh h" and "append_slice growcap r xs h = (r', h')"
  shows "owned f0 h' r' \<and> fresh h \<le> fresh h' \<and>
         (\<forall>a<f0. arrays h' a = arrays h a) \<and> elems h' r' = elems h r @ xs"
proof (cases "len r + length xs \<le> cap r")
  case inplace: True
  show ?thesis
  proof (cases "array r")
    case None
    with assms inplace show ?thesis
      by (auto simp: append_slice_def owned_def elems_def)
  next
    case (Some a)
    with assms inplace show ?thesis
      by (auto simp: append_slice_def owned_def elems_def the_array_def Let_def)
  qed
next
  case grow: False
  let ?n = "len r + length xs"
  let ?c = "max ?n (growcap (cap r) ?n)"
  let ?new = "elems h r @ xs @ replicate (?c - ?n) []"
  from grow assms(3)
  have r': "r' = \<lparr>array = Some (fresh h), off = 0, len = ?n, cap = ?c\<rparr>"
    and h': "h' = h\<lparr>arrays := (arrays h)(fresh h \<mapsto> ?new), fresh := Suc (fresh h)\<rparr>"
    by (simp_all add: append_slice_def Let_def)
  have l: "length ?new = ?c"
    using length_elems_owned [OF assms(1)] by simp
  have "owned f0 h' r'"
    using assms(2) l by (simp add: r' h' owned_def the_array_def)
  moreover have "fresh h \<le> fresh h'"
    by (simp add: h')
  moreover have "\<forall>a<f0. arrays h' a = arrays h a"
    using assms(2) by (simp add: h')
  moreover have "elems h' r' = elems h r @ xs"
    using length_elems_owned [OF assms(1)] by (simp add: r' h' elems_def the_array_def)
  ultimately show ?thesis by blast
qed

lemma elems_unchanged:
  assumes "slice_ok h0 s" and "\<forall>a<fresh h0. arrays h a = arrays h0 a"
  shows "elems h s = elems h0 s"
  using assms by (auto simp: slice_ok_def elems_def the_array_def split: option.splits)

lemma owned_nil: "owned f0 h nil_slice"
  by (simp add: owned_def nil_slice_def)

lemma elems_nil: "elems h nil_slice = []"
  by (simp add: elems_def nil_slice_def)

lemma Addresses_store_loop_owned:
  assumes "\<forall>k s. m k = Some s \<longrightarrow> slice_ok h0 s"
    and "owned (fresh h0) h r"
    and "fresh h0 \<le> fresh h"
    and "\<forall>a<fresh h0. arrays h a = arrays h0 a"
    and "Addresses_store_loop growcap m ks r h = (r', h')"
  shows "owned (fresh h0) h' r' \<and> fresh h0 \<le> fresh h' \<and>
         (\<forall>a<fresh h0. arrays h' a = arrays h0 a) \<and>
         elems h' r' =
           elems h r @ concat (map (\<lambda>k. case m k of None \<Rightarrow> [] | Some s \<Rightarrow> elems h0 s) ks)"
  using assms(2-5)
proof (induction ks arbitrary: r h)
  case Nil
  then show ?case by simp
next
  case (Cons k ks)
  show ?case
  proof (cases "m k")
    case None
    with Cons.prems(4) have "Addresses_store_loop growcap m ks r h = (r', h')"
      by simp
    from Cons.IH [OF Cons.prems(1-3) this] None show ?thesis by simp
  next
    case (Some s)
    obtain r1 h1 where a: "append_slice growcap r (elems h s) h = (r1, h1)"
      by (metis prod.exhaust)
    with Some Cons.prems(4) have rest: "Addresses_store_loop growcap m ks r1 h1 = (r', h')"
      by simp
    from Some assms(1) have "slice_ok h0 s" by blast
    then have s: "elems h s = elems h0 s"
      using Cons.prems(3) by (rule elems_unchanged)
    from append_slice_owned [OF Cons.prems(1,2) a]
    have 1: "owned (fresh h0) h1 r1" and 2: "fresh h0 \<le> fresh h1"
      and 3: "\<forall>a<fresh h0. arrays h1 a = arrays h0 a"
      and 4: "elems h1 r1 = elems h r @ elems h0 s"
      using Cons.prems(2,3) s by auto
    from Cons.IH [OF 1 2 3 rest] 4 Some show ?thesis by simp
  qed
qed

lemma slice_set_owned:
  assumes "owned f0 h r" and "slice_set r i v h = Some h'"
  shows "\<forall>a<f0. arrays h' a = arrays h a"
  using assms by (auto simp: owned_def slice_set_def split: if_splits option.splits)

subsection \<open>Evaluation of concrete runs\<close>

lemmas run_simps =
  Resolve_def Resolve_entry_def SplitN_2 Let_def map_range_def NewProvider_def
  cannedResolver_def flakyResolver_def staleProvider_def

lemmas store_simps =
  Addresses_store_def append_slice_def slice_set_def elems_def the_array_def slice_ok_def
  nil_slice_def doubling_def cachedStore_def cachedSlices_def cachedProvider_def
  NewProvider_def map_range_def Let_def

section \<open>The claims\<close>

text \<open>
  C1: when the lookup of an entry \<open>qtype+name\<close> of the input list fails (at every
  occurrence of that entry in the list), the cache entry of that spec after the call is
  what it was before the call, absent included. The failed entry leaves the whole cache
  as the entries before it produced it, and the entries after it are processed from
  there: the failure neither ends the loop nor touches another entry. Over the whole
  call the resolver is asked once for every entry of the list that has a \<open>+\<close>,
  failures or not.
\<close>

theorem Resolve_failed_lookup_keeps_entry:
  assumes "SplitN addr ''+'' 2 = [qtype, name]"
    and "addr \<in> set addrs"
    and "\<forall>xs ys. addrs = xs @ addr # ys \<longrightarrow>
           snd (fst (rslv ctx name qtype (resolver (Resolve_loop rslv ctx xs p)))) \<noteq> None"
    and "map_range (resolved (Resolve_loop rslv ctx addrs p)) ks"
  shows "resolved (snd (Resolve rslv ctx addrs ks p)) addr = resolved p addr
    \<and> (\<forall>xs ys. addrs = xs @ addr # ys \<longrightarrow>
          resolved (Resolve_loop rslv ctx (xs @ [addr]) p) = resolved (Resolve_loop rslv ctx xs p)
          \<and> Resolve_loop rslv ctx addrs p =
              Resolve_loop rslv ctx ys (Resolve_loop rslv ctx (xs @ [addr]) p))
    \<and> dnsResolveLookupsCount (snd (Resolve rslv ctx addrs ks p)) =
          dnsResolveLookupsCount p + length (filter (\<lambda>a. CHR ''+'' \<in> set a) addrs)"
proof -
  have count: "dnsResolveLookupsCount (snd (Resolve rslv ctx addrs ks p)) =
          dnsResolveLookupsCount p + length (filter (\<lambda>a. CHR ''+'' \<in> set a) addrs)"
    by (simp add: Resolve_keeps_counters Resolve_loop_lookups)
  have "resolved (snd (Resolve rslv ctx addrs ks p)) addr =
          resolved (Resolve_loop rslv ctx addrs p) addr"
    using resolved_Resolve [OF assms(4)] assms(2) by simp
  then have whole: "resolved (snd (Resolve rslv ctx addrs ks p)) addr = resolved p addr"
    using Resolve_loop_all_failed [OF assms(1,3)] by simp
  have steps: "resolved (Resolve_loop rslv ctx (xs @ [addr]) p) = resolved (Resolve_loop rslv ctx xs p)
      \<and> Resolve_loop rslv ctx addrs p =
          Resolve_loop rslv ctx ys (Resolve_loop rslv ctx (xs @ [addr]) p)"
    if "addrs = xs @ addr # ys" for xs ys
  proof -
    from that assms(3)
    have "snd (fst (rslv ctx name qtype (resolver (Resolve_loop rslv ctx xs p)))) \<noteq> None"
      by blast
    then have "resolved (Resolve_entry rslv ctx addr (Resolve_loop rslv ctx xs p)) =
                 resolved (Resolve_loop rslv ctx xs p)"
      by (rule Resolve_entry_failed [OF assms(1)])
    moreover have "Resolve_loop rslv ctx addrs p =
          Resolve_loop rslv ctx ys (Resolve_loop rslv ctx (xs @ [addr]) p)"
      unfolding that Resolve_loop_append by simp
    ultimately show ?thesis
      by (simp add: Resolve_loop_append)
  qed
  from whole steps count show ?thesis by blast
qed

theorem Resolve_failed_lookup_keeps_entry_witness:
  "resolved (snd (Resolve cannedResolver ()
      [''dns+bad.example.com:9090'', ''127.0.0.1:9090'']
      [''127.0.0.1:9090'', ''dns+bad.example.com:9090'', ''10.0.0.7:9090'']
      staleProvider)) ''dns+bad.example.com:9090'' = Some [''10.0.0.9:9090'']
   \<and> resolved (snd (Resolve cannedResolver ()
      [''dns+bad.example.com:9090'', ''127.0.0.1:9090'']
      [''127.0.0.1:9090'', ''dns+bad.example.com:9090'', ''10.0.0.7:9090'']
      staleProvider)) ''127.0.0.1:9090'' = Some [''127.0.0.1:9090'']
   \<and> dnsResolveLookupsCount (snd (Resolve cannedResolver ()
      [''dns+bad.example.com:9090'', ''127.0.0.1:9090'']
      [''127.0.0.1:9090'', ''dns+bad.example.com:9090'', ''10.0.0.7:9090'']
      staleProvider)) = 1"
proof -
  let ?bad = "''dns+bad.example.com:9090''"
  let ?addrs = "[?bad, ''127.0.0.1:9090'']"
  let ?ks = "[''127.0.0.1:9090'', ?bad, ''10.0.0.7:9090'']"
  have 1: "SplitN ?bad ''+'' 2 = [''dns'', ''bad.example.com:9090'']"
    by (simp add: SplitN_2)
  have 2: "?bad \<in> set ?addrs" by simp
  have 3: "\<forall>xs ys. ?addrs = xs @ ?bad # ys \<longrightarrow>
     snd (fst (cannedResolver () ''bad.example.com:9090'' ''dns''
       (resolver (Resolve_loop cannedResolver () xs staleProvider)))) \<noteq> None"
    by (simp add: cannedResolver_def)
  have 4: "map_range (resolved (Resolve_loop cannedResolver () ?addrs staleProvider)) ?ks"
    by (auto simp: run_simps)
  from Resolve_failed_lookup_keeps_entry [OF 1 2 3 4]
  show ?thesis by (simp add: run_simps)
qed

text \<open>
  C2: after \<open>Resolve\<close> every key of the cache is an element of the input list; a key
  that is not (compared as a whole string, as \<open>contains\<close> does) is absent from the map,
  not mapped to an empty list, so every target \<open>Addresses\<close> reports belongs to a spec
  of the input list; with the empty input list the cache is empty afterwards.
\<close>

theorem Resolve_cache_keys_requested:
  assumes "map_range (resolved (Resolve_loop rslv ctx addrs p)) ks"
    and "p' = snd (Resolve rslv ctx addrs ks p)"
  shows "dom (resolved p') \<subseteq> set addrs
    \<and> (\<forall>k. \<not> contains addrs k \<longrightarrow> resolved p' k = None)
    \<and> (\<forall>ks' t. map_range (resolved p') ks' \<and> t \<in> set (Addresses p' ks') \<longrightarrow>
          (\<exists>k\<in>set addrs. \<exists>v. resolved p' k = Some v \<and> t \<in> set v))
    \<and> (addrs = [] \<longrightarrow> resolved p' = Map.empty \<and> (\<forall>ks'. Addresses p' ks' = []))"
proof -
  have r: "resolved p' k = (if k \<in> set addrs then resolved (Resolve_loop rslv ctx addrs p) k else None)"
    for k
    using resolved_Resolve [OF assms(1)] assms(2) by simp
  have 1: "dom (resolved p') \<subseteq> set addrs"
    using r by (auto split: if_splits)
  have 2: "\<forall>k. \<not> contains addrs k \<longrightarrow> resolved p' k = None"
    using r by (simp add: contains_iff)
  have 3: "\<forall>ks' t. map_range (resolved p') ks' \<and> t \<in> set (Addresses p' ks') \<longrightarrow>
          (\<exists>k\<in>set addrs. \<exists>v. resolved p' k = Some v \<and> t \<in> set v)"
    using 1 by (auto simp: Addresses_member)
  have 4: "addrs = [] \<longrightarrow> resolved p' = Map.empty \<and> (\<forall>ks'. Addresses p' ks' = [])"
    using r by (auto simp: Addresses_concat)
  from 1 2 3 4 show ?thesis by blast
qed

theorem Resolve_cache_keys_requested_witness:
  "dom (resolved (snd (Resolve cannedResolver () [''127.0.0.1:9090'']
      [''127.0.0.1:9090'', ''dns+bad.example.com:9090'', ''10.0.0.7:9090'']
      staleProvider))) \<subseteq> {''127.0.0.1:9090''}
   \<and> resolved (snd (Resolve cannedResolver () [''127.0.0.1:9090'']
      [''127.0.0.1:9090'', ''dns+bad.example.com:9090'', ''10.0.0.7:9090'']
      staleProvider)) ''10.0.0.7:9090'' = None"
proof -
  let ?addrs = "[''127.0.0.1:9090'']"
  let ?ks = "[''127.0.0.1:9090'', ''dns+bad.example.com:9090'', ''10.0.0.7:9090'']"
  have 1: "map_range (resolved (Resolve_loop cannedResolver () ?addrs staleProvider)) ?ks"
    by (auto simp: run_simps)
  from Resolve_cache_keys_requested [OF 1 refl]
  show ?thesis by (simp add: contains_iff)
qed

text \<open>
  C3: when the lookup of an entry \<open>qtype+name\<close> succeeds with the list \<open>hosts\<close>, empty
  or not, that entry's iteration sets the cache entry of the spec to \<open>hosts\<close>; if no
  later occurrence of the same spec in the list succeeds, the entry is \<open>hosts\<close> after
  the call, and a snapshot of \<open>Addresses\<close> consists of \<open>hosts\<close> and of the targets of
  the other keys.
\<close>

theorem Resolve_successful_lookup_overwrites:
  assumes "SplitN addr ''+'' 2 = [qtype, name]"
    and "addrs = xs @ addr # ys"
    and "fst (rslv ctx name qtype (resolver (Resolve_loop rslv ctx xs p))) = (hosts, None)"
    and "\<forall>ys1 ys2. ys = ys1 @ addr # ys2 \<longrightarrow>
           snd (fst (rslv ctx name qtype
             (resolver (Resolve_loop rslv ctx (xs @ addr # ys1) p)))) \<noteq> None"
    and "map_range (resolved (Resolve_loop rslv ctx addrs p)) ks"
    and "p' = snd (Resolve rslv ctx addrs ks p)"
    and "map_range (resolved p') ks'"
  shows "resolved (Resolve_loop rslv ctx (xs @ [addr]) p) =
           (resolved (Resolve_loop rslv ctx xs p))(addr \<mapsto> hosts)
    \<and> resolved p' addr = Some hosts
    \<and> mset (Addresses p' ks') = mset hosts + mset (Addresses p' (removeAll addr ks'))"
proof -
  have 1: "resolved (Resolve_loop rslv ctx (xs @ [addr]) p) =
           (resolved (Resolve_loop rslv ctx xs p))(addr \<mapsto> hosts)"
    using Resolve_entry_succeeded [where rslv = rslv and ctx = ctx, OF assms(1,3)] by (simp add: Resolve_loop_append)
  have "resolved p' addr = resolved (Resolve_loop rslv ctx addrs p) addr"
    using resolved_Resolve [OF assms(5)] assms(2,6) by simp
  then have 2: "resolved p' addr = Some hosts"
    using Resolve_loop_last_success [OF assms(1,3,4)] assms(2) by simp
  from 1 2 Addresses_mset_key [OF assms(7) 2] show ?thesis by blast
qed

theorem Resolve_successful_lookup_overwrites_witness:
  "resolved (snd (Resolve flakyResolver ()
      [''dns+example.com:9090'', ''dns+example.com:9090'', ''dns+example.com:9090'']
      [''dns+example.com:9090''] (NewProvider 0))) ''dns+example.com:9090'' =
     Some [''10.0.0.2:9090'']"
proof -
  let ?a = "''dns+example.com:9090''"
  let ?p = "NewProvider 0 :: (nat, string) Provider"
  have 1: "SplitN ?a ''+'' 2 = [''dns'', ''example.com:9090'']"
    by (simp add: SplitN_2)
  have 2: "[?a, ?a, ?a] = [?a] @ ?a # [?a]" by simp
  have 3: "fst (flakyResolver () ''example.com:9090'' ''dns''
             (resolver (Resolve_loop flakyResolver () [?a] ?p))) = ([''10.0.0.2:9090''], None)"
    by (simp add: run_simps)
  have 4: "\<forall>ys1 ys2. [?a] = ys1 @ ?a # ys2 \<longrightarrow>
     snd (fst (flakyResolver () ''example.com:9090'' ''dns''
       (resolver (Resolve_loop flakyResolver () ([?a] @ ?a # ys1) ?p)))) \<noteq> None"
    by (simp add: Cons_eq_append_conv run_simps)
  have 5: "map_range (resolved (Resolve_loop flakyResolver () [?a, ?a, ?a] ?p)) [?a]"
    by (simp add: run_simps)
  have 6: "map_range (resolved (snd (Resolve flakyResolver () [?a, ?a, ?a] [?a] ?p))) [?a]"
    by (simp add: run_simps)
  from Resolve_successful_lookup_overwrites [OF 1 2 3 4 5 refl 6]
  show ?thesis by simp
qed

text \<open>
  C4: for an address without \<open>+\<close>, an iteration stores \<open>[addr]\<close> under \<open>addr\<close> and
  changes nothing else of the state (the resolver is not called, no counter moves);
  after a call whose input list contains it the entry is \<open>[addr]\<close> and \<open>Addresses\<close>
  contains the string itself.
\<close>

theorem Resolve_literal_address:
  assumes "CHR ''+'' \<notin> set addr"
    and "addr \<in> set addrs"
    and "map_range (resolved (Resolve_loop rslv ctx addrs p)) ks"
    and "p' = snd (Resolve rslv ctx addrs ks p)"
    and "map_range (resolved p') ks'"
  shows "(\<forall>q. Resolve_entry rslv ctx addr q = q\<lparr>resolved := (resolved q)(addr \<mapsto> [addr])\<rparr>)
    \<and> resolved p' addr = Some [addr]
    \<and> addr \<in> set (Addresses p' ks')"
proof -
  have "resolved p' addr = resolved (Resolve_loop rslv ctx addrs p) addr"
    using resolved_Resolve [OF assms(3)] assms(2,4) by simp
  then have 1: "resolved p' addr = Some [addr]"
    using Resolve_loop_literal [OF assms(1,2)] by simp
  then have "addr \<in> set ks'"
    using assms(5) by (auto simp: map_range_def)
  with 1 have "addr \<in> set (Addresses p' ks')"
    unfolding Addresses_member by fastforce
  with 1 show ?thesis
    using assms(1) by (simp add: Resolve_entry_literal)
qed

theorem Resolve_literal_address_witness:
  "''127.0.0.1:9090'' \<in> set (Addresses (snd (Resolve cannedResolver ()
      [''dns+bad.example.com:9090'', ''127.0.0.1:9090'']
      [''127.0.0.1:9090'', ''dns+bad.example.com:9090'', ''10.0.0.7:9090'']
      staleProvider)) [''dns+bad.example.com:9090'', ''127.0.0.1:9090''])"
proof -
  let ?bad = "''dns+bad.example.com:9090''"
  let ?lit = "''127.0.0.1:9090''"
  let ?ks = "[?lit, ?bad, ''10.0.0.7:9090'']"
  have 1: "CHR ''+'' \<notin> set ?lit" by simp
  have 2: "?lit \<in> set [?bad, ?lit]" by simp
  have 3: "map_range (resolved (Resolve_loop cannedResolver () [?bad, ?lit] staleProvider)) ?ks"
    by (auto simp: run_simps)
  have 4: "map_range (resolved (snd (Resolve cannedResolver () [?bad, ?lit] ?ks staleProvider)))
             [?bad, ?lit]"
    by (auto simp: run_simps)
  from Resolve_literal_address [OF 1 2 3 refl 4]
  show ?thesis by simp
qed

text \<open>
  C5: \<open>Addresses\<close> returns the concatenation of the cached lists in the order the keys
  are visited: as a multiset, the sum of the cached lists over the keys of the cache, and
  the empty list for the empty cache. On the store, the returned slice shows exactly
  that list, the cached slices show after the call what they showed before, and they
  still do after any assignment to an element of the returned slice and after any
  append to it: the returned slice shares no array with the cache.
\<close>

theorem Addresses_flattens_into_fresh_copy:
  assumes "map_range (resolved p) ks"
    and "\<forall>k. resolved p k = map_option (elems h) (m k)"
    and "\<forall>k s. m k = Some s \<longrightarrow> slice_ok h s"
    and "Addresses_store growcap m ks h = (result, h')"
  shows "Addresses p ks = concat (map (\<lambda>k. the (resolved p k)) ks)
    \<and> mset (Addresses p ks) = (\<Sum>k\<in>dom (resolved p). mset (the (resolved p k)))
    \<and> (resolved p = Map.empty \<longrightarrow> Addresses p ks = [])
    \<and> elems h' result = Addresses p ks
    \<and> (\<forall>k s. m k = Some s \<longrightarrow> elems h' s = elems h s)
    \<and> (\<forall>i v h''. slice_set result i v h' = Some h'' \<longrightarrow>
          (\<forall>k s. m k = Some s \<longrightarrow> elems h'' s = elems h s))
    \<and> (\<forall>xs result2 h''. append_slice growcap result xs h' = (result2, h'') \<longrightarrow>
          (\<forall>k s. m k = Some s \<longrightarrow> elems h'' s = elems h s))"
proof -
  have loop: "Addresses_store_loop growcap m ks nil_slice h = (result, h')"
    using assms(4) by (simp add: Addresses_store_def)
  from Addresses_store_loop_owned [OF assms(3) owned_nil le_refl _ loop]
  have own: "owned (fresh h) h' result" and fr: "fresh h \<le> fresh h'"
    and old: "\<forall>a<fresh h. arrays h' a = arrays h a"
    and el: "elems h' result =
      concat (map (\<lambda>k. case m k of None \<Rightarrow> [] | Some s \<Rightarrow> elems h s) ks)"
    by (simp_all add: elems_nil)
  have "(case m k of None \<Rightarrow> [] | Some s \<Rightarrow> elems h s) =
        (case resolved p k of None \<Rightarrow> [] | Some addrs \<Rightarrow> addrs)" for k
    using assms(2) by (simp split: option.split)
  with el have 4: "elems h' result = Addresses p ks"
    by (simp add: Addresses_concat)
  have 5: "\<forall>k s. m k = Some s \<longrightarrow> elems h' s = elems h s"
    using assms(3) old by (blast intro: elems_unchanged)
  have 6: "\<forall>i v h''. slice_set result i v h' = Some h'' \<longrightarrow>
          (\<forall>k s. m k = Some s \<longrightarrow> elems h'' s = elems h s)"
  proof (intro allI impI)
    fix i v h'' k s
    assume w: "slice_set result i v h' = Some h''" and k: "m k = Some s"
    from slice_set_owned [OF own w] old
    have "\<forall>a<fresh h. arrays h'' a = arrays h a" by simp
    with assms(3) k show "elems h'' s = elems h s"
      by (blast intro: elems_unchanged)
  qed
  have 7: "\<forall>xs result2 h''. append_slice growcap result xs h' = (result2, h'') \<longrightarrow>
          (\<forall>k s. m k = Some s \<longrightarrow> elems h'' s = elems h s)"
  proof (intro allI impI)
    fix xs result2 h'' k s
    assume w: "append_slice growcap result xs h' = (result2, h'')" and k: "m k = Some s"
    from append_slice_owned [OF own fr w] old
    have "\<forall>a<fresh h. arrays h'' a = arrays h a" by simp
    with assms(3) k show "elems h'' s = elems h s"
      by (blast intro: elems_unchanged)
  qed
  from Addresses_the [OF assms(1)] Addresses_sum [OF assms(1)]
    Addresses_empty [OF assms(1)] 4 5 6 7
  show ?thesis by blast
qed

theorem Addresses_flattens_into_fresh_copy_witness:
  "Addresses cachedProvider [''dns+example.com:9090'', ''127.0.0.1:9090''] =
     [''10.0.0.1:9090'', ''10.0.0.2:9090'', ''127.0.0.1:9090'']
   \<and> (case Addresses_store doubling cachedSlices
            [''dns+example.com:9090'', ''127.0.0.1:9090''] cachedStore of
         (result, h') \<Rightarrow>
           result = \<lparr>array = Some 3, off = 0, len = 3, cap = 4\<rparr> \<and>
           elems h' result = [''10.0.0.1:9090'', ''10.0.0.2:9090'', ''127.0.0.1:9090''] \<and>
           (case slice_set result 0 ''overwritten'' h' of
              None \<Rightarrow> False
            | Some h'' \<Rightarrow>
                elems h'' result = [''overwritten'', ''10.0.0.2:9090'', ''127.0.0.1:9090''] \<and>
                elems h'' \<lparr>array = Some 0, off = 0, len = 2, cap = 3\<rparr> =
                  [''10.0.0.1:9090'', ''10.0.0.2:9090'']))"
proof -
  let ?ks = "[''dns+example.com:9090'', ''127.0.0.1:9090'']"
  let ?run = "Addresses_store doubling cachedSlices ?ks cachedStore"
  have 1: "map_range (resolved cachedProvider) ?ks"
    by (auto simp: store_simps)
  have 2: "\<forall>k. resolved cachedProvider k = map_option (elems cachedStore) (cachedSlices k)"
    by (simp add: store_simps)
  have 3: "\<forall>k s. cachedSlices k = Some s \<longrightarrow> slice_ok cachedStore s"
    by (simp add: store_simps)
  have 4: "?run = (fst ?run, snd ?run)" by simp
  have 5: "?run =
     (\<lparr>array = Some 3, off = 0, len = 3, cap = 4\<rparr>,
      \<lparr>arrays = [0 \<mapsto> [''10.0.0.1:9090'', ''10.0.0.2:9090'', []],
                 1 \<mapsto> [''127.0.0.1:9090''],
                 2 \<mapsto> [''10.0.0.1:9090'', ''10.0.0.2:9090''],
                 3 \<mapsto> [''10.0.0.1:9090'', ''10.0.0.2:9090'', ''127.0.0.1:9090'', []]],
       fresh = 4\<rparr>)"
    by (simp add: store_simps)
  from Addresses_flattens_into_fresh_copy [OF 1 2 3 4]
  have "elems (snd ?run) (fst ?run) = Addresses cachedProvider ?ks"
    and "slice_set (fst ?run) 0 ''overwritten'' (snd ?run) = Some h'' \<longrightarrow>
          cachedSlices ''dns+example.com:9090'' = Some s \<longrightarrow> elems h'' s = elems cachedStore s"
    for h'' s
    by blast+
  then show ?thesis
    unfolding 5 by (simp add: store_simps Addresses_Cons Addresses_Nil)
qed

text \<open>
  C6: \<open>Resolve\<close> returns no error, whatever the input list, the visiting order, the
  state and the resolver's answers are; lookup failures only reach the counters and the
  log.
\<close>

theorem Resolve_returns_nil: "fst (Resolve rslv ctx addrs ks p) = None"
  by (simp add: Resolve_def Let_def)

text \<open>
  C7: with a resolver whose answer for a name and a query type is the same whenever it is
  asked, in the first call and in the second, a second \<open>Resolve\<close> with the same input
  list leaves the cache as the first one left it. \<open>Addresses\<close> then returns the same
  list for the same visiting order of the keys, and the same multiset of targets for any
  two visiting orders.
\<close>

theorem Resolve_idempotent:
  assumes "\<forall>name qtype r r'. fst (rslv ctx1 name qtype r) = fst (rslv ctx2 name qtype r')"
    and "map_range (resolved (Resolve_loop rslv ctx1 addrs p)) ks1"
    and "p1 = snd (Resolve rslv ctx1 addrs ks1 p)"
    and "map_range (resolved (Resolve_loop rslv ctx2 addrs p1)) ks2"
    and "p2 = snd (Resolve rslv ctx2 addrs ks2 p1)"
  shows "resolved p2 = resolved p1
    \<and> (\<forall>ks. Addresses p2 ks = Addresses p1 ks)
    \<and> (\<forall>ks ks'. map_range (resolved p1) ks \<and> map_range (resolved p2) ks' \<longrightarrow>
          mset (Addresses p2 ks') = mset (Addresses p1 ks))"
proof -
  note pure = pure_same_ctx [where rslv = rslv and c = ctx1 and c' = ctx2, OF assms(1)]
  have r1: "resolved p1 k =
      (if k \<in> set addrs then resolved (Resolve_loop rslv ctx1 addrs p) k else None)" for k
    unfolding assms(3) by (rule resolved_Resolve [OF assms(2)])
  have r2: "resolved p2 k =
      (if k \<in> set addrs then resolved (Resolve_loop rslv ctx2 addrs p1) k else None)" for k
    unfolding assms(5) by (rule resolved_Resolve [OF assms(4)])
  have "resolved p2 k = resolved p1 k" for k
  proof (cases "k \<in> set addrs")
    case True
    have 1: "resolved p1 k = resolved (Resolve_entry rslv ctx1 k p) k"
      using r1 [of k] True Resolve_loop_pure [where rslv = rslv and c = ctx1, OF pure(1) True]
      by simp
    have "resolved p2 k = resolved (Resolve_entry rslv ctx2 k p1) k"
      using r2 [of k] True Resolve_loop_pure [where rslv = rslv and c = ctx2, OF pure(2) True]
      by simp
    also have "\<dots> = resolved (Resolve_entry rslv ctx2 k (Resolve_entry rslv ctx1 k p)) k"
      using 1 by (rule Resolve_entry_value [where rslv = rslv and c = ctx2 and c' = ctx2, OF pure(2)])
    also have "\<dots> = resolved (Resolve_entry rslv ctx1 k p) k"
      by (rule Resolve_entry_twice [where rslv = rslv and c = ctx1 and c' = ctx2, OF assms(1)])
    finally show ?thesis using 1 by simp
  next
    case False
    then show ?thesis
      using r1 [of k] r2 [of k] by simp
  qed
  then have eq: "resolved p2 = resolved p1" by (rule ext)
  then have same: "\<forall>ks. Addresses p2 ks = Addresses p1 ks"
    by (simp add: Addresses_def)
  have "mset (Addresses p2 ks') = mset (Addresses p1 ks)"
    if "map_range (resolved p1) ks" "map_range (resolved p2) ks'" for ks ks'
    using Addresses_sum [OF that(1)] Addresses_sum [OF that(2)] eq by simp
  with eq same show ?thesis by blast
qed

theorem Resolve_idempotent_witness:
  "resolved (snd (Resolve cannedResolver ()
      [''dns+example.com:9090'', ''dns+bad.example.com:9090'']
      [''dns+bad.example.com:9090'', ''dns+example.com:9090'']
      (snd (Resolve cannedResolver ()
         [''dns+example.com:9090'', ''dns+bad.example.com:9090'']
         [''dns+example.com:9090'', ''dns+bad.example.com:9090'', ''10.0.0.7:9090'']
         staleProvider)))) =
   resolved (snd (Resolve cannedResolver ()
         [''dns+example.com:9090'', ''dns+bad.example.com:9090'']
         [''dns+example.com:9090'', ''dns+bad.example.com:9090'', ''10.0.0.7:9090'']
         staleProvider))"
proof -
  let ?addrs = "[''dns+example.com:9090'', ''dns+bad.example.com:9090'']"
  let ?ks1 = "[''dns+example.com:9090'', ''dns+bad.example.com:9090'', ''10.0.0.7:9090'']"
  let ?ks2 = "[''dns+bad.example.com:9090'', ''dns+example.com:9090'']"
  let ?p1 = "snd (Resolve cannedResolver () ?addrs ?ks1 staleProvider)"
  have 1: "\<forall>name qtype r r'.
     fst (cannedResolver () name qtype r) = fst (cannedResolver () name qtype r')"
    by (simp add: cannedResolver_def)
  have 2: "map_range (resolved (Resolve_loop cannedResolver () ?addrs staleProvider)) ?ks1"
    by (auto simp: run_simps)
  have 3: "map_range (resolved (Resolve_loop cannedResolver () ?addrs ?p1)) ?ks2"
    by (auto simp: run_simps)
  from Resolve_idempotent [where rslv = cannedResolver and ?ctx1.0 = "()" and ?ctx2.0 = "()",
      OF 1 2 refl 3 refl]
  show ?thesis by simp
qed

text \<open>
  C8: an address \<open>qtype+name\<close> in which \<open>qtype\<close> has no \<open>+\<close> is split into exactly
  \<open>qtype\<close> and \<open>name\<close>, however many \<open>+\<close> the name contains, and the iteration for
  it is the single resolver call with that name and that query type, followed by the
  update its answer asks for.
\<close>

theorem Resolve_splits_on_first_plus:
  assumes "CHR ''+'' \<notin> set qtype"
    and "addr = qtype @ ''+'' @ name"
  shows "SplitN addr ''+'' 2 = [qtype, name]
    \<and> Resolve_entry rslv ctx addr p =
        (case rslv ctx name qtype (resolver p) of
           ((hosts, err), r') \<Rightarrow>
             (case err of
                Some e \<Rightarrow>
                  p\<lparr>resolver := r',
                    dnsResolveLookupsCount := dnsResolveLookupsCount p + 1,
                    dnsResolveFailuresCount := dnsResolveFailuresCount p + 1,
                    logger := logger p @ [(''dns resolution failed for '' @ addr, e)]\<rparr>
              | None \<Rightarrow>
                  p\<lparr>resolver := r',
                    dnsResolveLookupsCount := dnsResolveLookupsCount p + 1,
                    resolved := (resolved p)(addr \<mapsto> hosts)\<rparr>))"
proof -
  have s: "SplitN addr ''+'' 2 = [qtype, name]"
    using SplitN_first_sep [OF assms(1)] assms(2) by simp
  obtain hosts err r' where r: "rslv ctx name qtype (resolver p) = ((hosts, err), r')"
    by (metis prod.exhaust)
  from Resolve_entry_lookup [where rslv = rslv and ctx = ctx, OF s r] s r show ?thesis
    by (cases err) simp_all
qed

theorem Resolve_splits_on_first_plus_witness:
  "SplitN ''dns+a+b.example.com'' ''+'' 2 = [''dns'', ''a+b.example.com'']
   \<and> resolver (Resolve_entry cannedResolver () ''dns+a+b.example.com'' (NewProvider [])) =
       [(''a+b.example.com'', ''dns'')]"
proof -
  have 1: "CHR ''+'' \<notin> set ''dns''" by simp
  have 2: "''dns+a+b.example.com'' = ''dns'' @ ''+'' @ ''a+b.example.com''" by simp
  from Resolve_splits_on_first_plus [OF 1 2, of cannedResolver "()" "NewProvider []"]
  show ?thesis by (simp add: cannedResolver_def NewProvider_def)
qed

text \<open>
  C10: for a spec that occurs more than once in the input list, every occurrence with a
  \<open>+\<close> is looked up (the lookup counter grows by the number of such entries of the
  list); when the lookup of the last occurrence succeeds, its answer is the cache entry
  after the call, whatever earlier occurrences stored; the cache holds at most one entry
  for the spec, and a snapshot of \<open>Addresses\<close> contains that entry's targets once, at
  the place of that key, and nothing for the spec when it has no entry.
\<close>

theorem Resolve_duplicate_spec_single_entry:
  assumes "1 < count_list addrs addr"
    and "map_range (resolved (Resolve_loop rslv ctx addrs p)) ks"
    and "p' = snd (Resolve rslv ctx addrs ks p)"
    and "map_range (resolved p') ks'"
  shows "dnsResolveLookupsCount p' =
           dnsResolveLookupsCount p + length (filter (\<lambda>a. CHR ''+'' \<in> set a) addrs)
    \<and> (\<forall>xs ys qtype name hosts.
          addrs = xs @ addr # ys \<and> addr \<notin> set ys \<and> SplitN addr ''+'' 2 = [qtype, name] \<and>
          fst (rslv ctx name qtype (resolver (Resolve_loop rslv ctx xs p))) = (hosts, None)
          \<longrightarrow> resolved p' addr = Some hosts)
    \<and> (\<forall>v. resolved p' addr = Some v \<longrightarrow>
          (\<exists>ks1 ks2. ks' = ks1 @ addr # ks2 \<and> addr \<notin> set ks1 \<and> addr \<notin> set ks2 \<and>
             Addresses p' ks' = Addresses p' ks1 @ v @ Addresses p' ks2))
    \<and> (resolved p' addr = None \<longrightarrow> addr \<notin> set ks')"
proof -
  have 1: "dnsResolveLookupsCount p' =
           dnsResolveLookupsCount p + length (filter (\<lambda>a. CHR ''+'' \<in> set a) addrs)"
    by (simp add: assms(3) Resolve_keeps_counters Resolve_loop_lookups)
  have 2: "resolved p' addr = Some hosts"
    if "addrs = xs @ addr # ys" "addr \<notin> set ys" "SplitN addr ''+'' 2 = [qtype, name]"
       "fst (rslv ctx name qtype (resolver (Resolve_loop rslv ctx xs p))) = (hosts, None)"
    for xs ys qtype name hosts
  proof -
    have "\<forall>ys1 ys2. ys = ys1 @ addr # ys2 \<longrightarrow>
           snd (fst (rslv ctx name qtype
             (resolver (Resolve_loop rslv ctx (xs @ addr # ys1) p)))) \<noteq> None"
      using that(2) by auto
    from Resolve_loop_last_success [OF that(3,4) this]
    have "resolved (Resolve_loop rslv ctx addrs p) addr = Some hosts"
      by (simp add: that(1))
    then show ?thesis
      using resolved_Resolve [OF assms(2)] that(1) assms(3) by simp
  qed
  have 3: "\<forall>v. resolved p' addr = Some v \<longrightarrow>
          (\<exists>ks1 ks2. ks' = ks1 @ addr # ks2 \<and> addr \<notin> set ks1 \<and> addr \<notin> set ks2 \<and>
             Addresses p' ks' = Addresses p' ks1 @ v @ Addresses p' ks2)"
    using Addresses_split_key [OF assms(4)] by blast
  have 4: "resolved p' addr = None \<longrightarrow> addr \<notin> set ks'"
    using assms(4) by (auto simp: map_range_def)
  from 1 2 3 4 show ?thesis by blast
qed

theorem Resolve_duplicate_spec_single_entry_witness:
  "dnsResolveLookupsCount (snd (Resolve flakyResolver ()
      [''dns+example.com:9090'', ''dns+example.com:9090'']
      [''dns+example.com:9090''] (NewProvider 0))) = 2
   \<and> Addresses (snd (Resolve flakyResolver ()
      [''dns+example.com:9090'', ''dns+example.com:9090'']
      [''dns+example.com:9090''] (NewProvider 0))) [''dns+example.com:9090''] =
     [''10.0.0.2:9090'']"
proof -
  let ?a = "''dns+example.com:9090''"
  let ?p = "NewProvider 0 :: (nat, string) Provider"
  let ?p' = "snd (Resolve flakyResolver () [?a, ?a] [?a] ?p)"
  have 1: "1 < count_list [?a, ?a] ?a" by simp
  have 2: "map_range (resolved (Resolve_loop flakyResolver () [?a, ?a] ?p)) [?a]"
    by (simp add: run_simps)
  have 3: "map_range (resolved ?p') [?a]"
    by (simp add: run_simps)
  have 4: "[?a, ?a] = [?a] @ ?a # [] \<and> ?a \<notin> set [] \<and>
      SplitN ?a ''+'' 2 = [''dns'', ''example.com:9090''] \<and>
      fst (flakyResolver () ''example.com:9090'' ''dns''
        (resolver (Resolve_loop flakyResolver () [?a] ?p))) = ([''10.0.0.2:9090''], None)"
    by (simp add: run_simps)
  from Resolve_duplicate_spec_single_entry [OF 1 2 refl 3] 4
  have "dnsResolveLookupsCount ?p' =
          dnsResolveLookupsCount ?p + length (filter (\<lambda>a. CHR ''+'' \<in> set a) [?a, ?a])"
    and "resolved ?p' ?a = Some [''10.0.0.2:9090'']"
    by blast+
  then show ?thesis
    by (simp add: NewProvider_def Addresses_Cons Addresses_Nil)
qed

end
